theory Spec2Isabelle
  imports Main "HOL-Library.Word"
begin

section \<open>The worker count of a submodular function object\<close>

text \<open>
  \<^verbatim>\<open>SubmodularFunction<HostDataType>\<close> has one data member,
  \<^verbatim>\<open>unsigned int _workerCount = 1\<close>. An identifier cannot start with an underscore
  here, so the field is called \<open>workerCount\<close>. \<^verbatim>\<open>unsigned int\<close> and \<^verbatim>\<open>int\<close> are
  32 bits wide; an \<^verbatim>\<open>int\<close> is a word read through \<open>sint\<close>.
\<close>

record SubmodularFunction =
  workerCount :: "32 word"

text \<open>
  \<^verbatim>\<open>setWorkerCount(int workerCount)\<close>. The value of
  \<^verbatim>\<open>std::thread::hardware_concurrency()\<close> at the moment of the call belongs to the
  platform, not to the source: it is the parameter \<open>hardware_concurrency\<close>. The
  assignment of the \<^verbatim>\<open>int\<close> to the \<^verbatim>\<open>unsigned int\<close> member keeps the bits.
\<close>

definition setWorkerCount :: "32 word \<Rightarrow> 32 word \<Rightarrow> SubmodularFunction \<Rightarrow> SubmodularFunction" where
  "setWorkerCount hardware_concurrency n this =
     (if 1 \<le> sint n then this\<lparr>workerCount := n\<rparr>
      else (let suggestedThreads = hardware_concurrency
            in this\<lparr>workerCount := (if 0 < suggestedThreads then suggestedThreads else 1)\<rparr>))"

definition getWorkerCount :: "SubmodularFunction \<Rightarrow> 32 word" where
  "getWorkerCount this = workerCount this"

text \<open>
  The constructor \<^verbatim>\<open>SubmodularFunction(int workerCount = -1)\<close>: the member starts from its
  default initialiser 1, then the body calls \<^verbatim>\<open>setWorkerCount\<close> (inside a constructor
  the call is to this class's own version).
\<close>

definition SubmodularFunction_ctor :: "32 word \<Rightarrow> 32 word \<Rightarrow> SubmodularFunction" where
  "SubmodularFunction_ctor hardware_concurrency n =
     setWorkerCount hardware_concurrency n \<lparr>workerCount = 1\<rparr>"

definition SubmodularFunction_ctor_default :: "32 word \<Rightarrow> SubmodularFunction" where
  "SubmodularFunction_ctor_default hardware_concurrency =
     SubmodularFunction_ctor hardware_concurrency (- 1)"

text \<open>
  A life of the object: construction, then any number of \<^verbatim>\<open>setWorkerCount\<close> calls, each
  with the hardware concurrency the platform reports at that moment.
\<close>

fun setWorkerCount_calls :: "(32 word \<times> 32 word) list \<Rightarrow> SubmodularFunction \<Rightarrow> SubmodularFunction" where
  "setWorkerCount_calls [] this = this"
| "setWorkerCount_calls ((hc, n) # rest) this = setWorkerCount_calls rest (setWorkerCount hc n this)"


section \<open>Matrices and vectors\<close>

text \<open>
  Modelled from the spec: \<^verbatim>\<open>src/io/DataTypes.h\<close>, which declares \<^verbatim>\<open>MatrixX\<close> and
  \<^verbatim>\<open>VectorXRef\<close> (Eigen's dynamically sized matrix and a reference to a dynamically
  sized vector), is not among the sources. By the spec's data model a collection is an
  ordered sequence of elements, one per row, all of one dimension, and an element is a
  vector of scalars. A matrix without rows still has a number of columns, so \<open>cols\<close> is a
  field of its own; \<open>rows\<close> is the number of rows held. The scalar type
  \<^verbatim>\<open>HostDataType\<close> is the type parameter \<open>'a\<close>, with the subtraction and the zero
  the code uses.
\<close>

record 'a matrix =
  cols :: nat
  rowlist :: "'a list list"

definition rows :: "'a matrix \<Rightarrow> nat" where
  "rows M = length (rowlist M)"

type_synonym 'a vector = "'a list"

text \<open>
  Modelled from the spec: Eigen's \<^verbatim>\<open>conservativeResize(r, Eigen::NoChange_t())\<close> is not
  among the sources. It sets the number of rows to \<open>r\<close> and keeps the columns and the
  coefficients that remain. Eigen leaves the coefficients of new rows uninitialised; here
  they are 0, and every use below overwrites them before anything reads them.
\<close>

definition conservativeResize :: "nat \<Rightarrow> 'a::zero matrix \<Rightarrow> 'a matrix" where
  "conservativeResize r M =
     M\<lparr>rowlist := take r (rowlist M) @ replicate (r - rows M) (replicate (cols M) 0)\<rparr>"

text \<open>
  Modelled from the spec: Eigen's comma initialiser \<^verbatim>\<open>M.row(i) << v.transpose()\<close> is not
  among the sources. It writes the vector into row \<open>i\<close>; Eigen asserts that the row exists
  and that the vector has exactly as many coefficients as the row has columns. A violated
  assertion is the result \<open>None\<close>: the spec only says that a width mismatch surfaces as
  whatever failure the append path produces.
\<close>

definition assign_row :: "nat \<Rightarrow> 'a vector \<Rightarrow> 'a matrix \<Rightarrow> 'a matrix option" where
  "assign_row i v M =
     (if i < rows M \<and> length v = cols M then Some (M\<lparr>rowlist := (rowlist M)[i := v]\<rparr>) else None)"

text \<open>
  ``\<open>S\<close> with \<open>e\<close> appended as a new last row'', in the spec's words: the matrix the
  theorems compare the code's augmented copies with.
\<close>

definition appended :: "'a matrix \<Rightarrow> 'a vector \<Rightarrow> 'a matrix" where
  "appended S e = S\<lparr>rowlist := rowlist S @ [e]\<rparr>"


section \<open>Failures, the evaluation primitive, and the calls made\<close>

text \<open>
  How a call can end without a value. \<open>runtime_error\<close> is the \<^verbatim>\<open>std::runtime_error\<close>
  this class throws, with its message. \<open>evaluate_failure\<close> is whatever the subclass's
  \<^verbatim>\<open>operator()(const MatrixX&)\<close> threw, of a type \<open>'x\<close> of the subclass's choosing: the
  exception travels up the call stack, unchanged. \<open>std_terminate\<close> is the end of the
  program by \<^verbatim>\<open>std::terminate\<close>. \<open>eigen_assertion\<close> is a violated assertion of the comma
  initialiser.
\<close>

datatype 'x failure =
    runtime_error string
  | evaluate_failure 'x
  | std_terminate
  | eigen_assertion

text \<open>
  The header does not say how it is compiled. Without OpenMP the line
  \<^verbatim>\<open>#pragma omp parallel for num_threads(_workerCount)\<close> is ignored and the loop under it is
  a plain loop, which an exception leaves like any other. With OpenMP the loop body is a
  parallel region; an exception must not leave a parallel region, there is no handler in
  the body, and the program ends in \<^verbatim>\<open>std::terminate\<close>. The build is a parameter of
  every function that contains or reaches that loop.
\<close>

datatype build = with_openmp | without_openmp

text \<open>
  The pure virtual \<^verbatim>\<open>operator()(const MatrixX<HostDataType>& S) const\<close>: a parameter of
  every wrapper. It returns a value or throws.
\<close>

type_synonym ('a, 'x) evaluate = "'a matrix \<Rightarrow> 'x + 'a"

text \<open>
  Every wrapper also returns the calls it made, in order: a call of the primitive with its
  argument, or a call of the batch evaluation with its argument and the calls that one made
  in turn.
\<close>

datatype 'a call =
    evaluate_call "'a matrix"
  | evaluateBatch_call "'a matrix list" "'a call list"

fun evaluations :: "'a call \<Rightarrow> 'a matrix list" where
  "evaluations (evaluate_call S) = [S]"
| "evaluations (evaluateBatch_call S_multi calls) = concat (map evaluations calls)"

fun batch_calls :: "'a call \<Rightarrow> 'a matrix list list" where
  "batch_calls (evaluate_call S) = []"
| "batch_calls (evaluateBatch_call S_multi calls) = S_multi # concat (map batch_calls calls)"


section \<open>Marginal gain of one element\<close>

text \<open>\<^verbatim>\<open>std::to_string\<close> of a size: its decimal digits.\<close>

definition digit_char :: "nat \<Rightarrow> char" where
  "digit_char d = ''0123456789'' ! d"

fun to_string :: "nat \<Rightarrow> string" where
  "to_string n =
     (if n < 10 then [digit_char n] else to_string (n div 10) @ [digit_char (n mod 10)])"

declare to_string.simps [simp del]

definition mismatch_message :: "nat \<Rightarrow> nat \<Rightarrow> string" where
  "mismatch_message c n =
     ''SubmodularFunction::operator(): The number of columns in matrix `S` and the number of elements in vector `elem` do not match (''
     @ to_string c @ '' vs. '' @ to_string n @ '').''"

text \<open>
  \<^verbatim>\<open>operator()(*S_elem) - operator()(S)\<close>: C++ does not fix which operand of the
  subtraction is evaluated first, so the order is a parameter. The first call that throws
  ends the expression.
\<close>

datatype operand_order = left_first | right_first

definition difference_of_calls ::
  "operand_order \<Rightarrow> ('a::minus, 'x) evaluate \<Rightarrow> 'a matrix \<Rightarrow> 'a matrix \<Rightarrow> ('x failure + 'a) \<times> 'a call list" where
  "difference_of_calls ord f A B =
     (case ord of
        left_first \<Rightarrow>
          (case f A of
             Inl x \<Rightarrow> (Inl (evaluate_failure x), [evaluate_call A])
           | Inr a \<Rightarrow>
               (case f B of
                  Inl x \<Rightarrow> (Inl (evaluate_failure x), [evaluate_call A, evaluate_call B])
                | Inr b \<Rightarrow> (Inr (a - b), [evaluate_call A, evaluate_call B])))
      | right_first \<Rightarrow>
          (case f B of
             Inl x \<Rightarrow> (Inl (evaluate_failure x), [evaluate_call B])
           | Inr b \<Rightarrow>
               (case f A of
                  Inl x \<Rightarrow> (Inl (evaluate_failure x), [evaluate_call B, evaluate_call A])
                | Inr a \<Rightarrow> (Inr (a - b), [evaluate_call B, evaluate_call A]))))"

text \<open>
  \<^verbatim>\<open>operator()(const MatrixX& S, VectorXRef elem) const\<close>, lines 53 to 67. That \<open>S\<close>
  is copied and not written is one of the properties below, so the matrices live in a
  store: a list of matrices, a reference being an index into it. \<open>S\<close> is the reference
  the caller passes (valid: below the length of the store). \<^verbatim>\<open>std::make_unique<MatrixX>(S)\<close> allocates a
  new cell holding a copy; the resize and the row assignment write that cell; both calls
  read through their references; the \<^verbatim>\<open>unique_ptr\<close> gives the cell back when the
  function is left, by return or by exception. The result is the outcome, the calls made
  and the store the caller finds afterwards.
\<close>

type_synonym 'a store = "'a matrix list"

definition marginalGain ::
  "operand_order \<Rightarrow> ('a::{zero,minus}, 'x) evaluate \<Rightarrow> 'a store \<Rightarrow> nat \<Rightarrow> 'a vector
     \<Rightarrow> ('x failure + 'a) \<times> 'a call list \<times> 'a store" where
  "marginalGain ord f h S elem =
     (if cols (h ! S) = length elem then
        (let S_elem = length h;
             h1 = h @ [h ! S];
             h2 = h1[S_elem := conservativeResize (rows (h1 ! S) + 1) (h1 ! S_elem)]
         in case assign_row (rows (h2 ! S)) elem (h2 ! S_elem) of
              None \<Rightarrow> (Inl eigen_assertion, [], take S_elem h2)
            | Some M \<Rightarrow>
                (let h3 = h2[S_elem := M];
                     (gain, calls) = difference_of_calls ord f (h3 ! S_elem) (h3 ! S)
                 in (gain, calls, take S_elem h3)))
      else (Inl (runtime_error (mismatch_message (cols (h ! S)) (length elem))), [], h))"

text \<open>The same call on a matrix given by value: it stands alone in the store.\<close>

definition marginalGain_of ::
  "operand_order \<Rightarrow> ('a::{zero,minus}, 'x) evaluate \<Rightarrow> 'a matrix \<Rightarrow> 'a vector
     \<Rightarrow> ('x failure + 'a) \<times> 'a call list" where
  "marginalGain_of ord f S elem =
     (case marginalGain ord f [S] 0 elem of (r, calls, h') \<Rightarrow> (r, calls))"

text \<open>
  The non-const overload, lines 75 to 77, casts \<^verbatim>\<open>this\<close> to a pointer to const and calls
  the overload above.
\<close>

definition marginalGain_nonconst ::
  "operand_order \<Rightarrow> ('a::{zero,minus}, 'x) evaluate \<Rightarrow> 'a store \<Rightarrow> nat \<Rightarrow> 'a vector
     \<Rightarrow> ('x failure + 'a) \<times> 'a call list \<times> 'a store" where
  "marginalGain_nonconst ord f h S elem = marginalGain ord f h S elem"


section \<open>Batch evaluation\<close>

text \<open>
  \<^verbatim>\<open>operator()(const std::vector<MatrixX>& S_multi) const\<close>, lines 85 to 97. The iterations
  of the \<^verbatim>\<open>#pragma omp parallel for num_threads(_workerCount)\<close> loop are dealt out to at
  most \<^verbatim>\<open>_workerCount\<close> threads. Each iteration reads \<open>S_multi[i]\<close>, calls the primitive
  and writes \<open>utilities[i]\<close>, a cell no other iteration touches; the primitive is a function
  of its argument. So a run is described by the order in which the iterations take
  place, the \<open>schedule\<close>: with one thread the ascending order, with more threads some
  arrangement of the indices \<open>0, ..., N - 1\<close> (\<open>omp_schedule\<close>, whose first argument is
  the value of \<^verbatim>\<open>_workerCount\<close>). \<^verbatim>\<open>utilities.resize(N)\<close> fills the vector with
  \<open>N\<close> zeros. An exception of the primitive in the loop body leaves the plain loop of a
  build without OpenMP unchanged and ends the program in a build with OpenMP
  (\<open>thrown_in_loop\<close>).
\<close>

definition omp_schedule :: "32 word \<Rightarrow> nat \<Rightarrow> nat list \<Rightarrow> bool" where
  "omp_schedule num_threads N schedule =
     (if num_threads = 1 then schedule = [0..<N] else sort schedule = [0..<N])"

definition thrown_in_loop :: "build \<Rightarrow> 'x \<Rightarrow> 'x failure" where
  "thrown_in_loop b x = (case b of with_openmp \<Rightarrow> std_terminate | without_openmp \<Rightarrow> evaluate_failure x)"

fun evaluateBatch_loop ::
  "build \<Rightarrow> ('a, 'x) evaluate \<Rightarrow> 'a matrix list \<Rightarrow> nat list \<Rightarrow> 'a list
     \<Rightarrow> ('x failure + 'a list) \<times> 'a call list" where
  "evaluateBatch_loop b f S_multi [] utilities = (Inr utilities, [])"
| "evaluateBatch_loop b f S_multi (i # schedule) utilities =
     (case f (S_multi ! i) of
        Inl x \<Rightarrow> (Inl (thrown_in_loop b x), [evaluate_call (S_multi ! i)])
      | Inr u \<Rightarrow>
          (case evaluateBatch_loop b f S_multi schedule (utilities[i := u]) of
             (r, calls) \<Rightarrow> (r, evaluate_call (S_multi ! i) # calls)))"

definition evaluateBatch ::
  "build \<Rightarrow> ('a::zero, 'x) evaluate \<Rightarrow> nat list \<Rightarrow> 'a matrix list
     \<Rightarrow> ('x failure + 'a list) \<times> 'a call list" where
  "evaluateBatch b f schedule S_multi =
     (let utilities = replicate (length S_multi) 0
      in evaluateBatch_loop b f S_multi schedule utilities)"

text \<open>The non-const overload, lines 105 to 107.\<close>

definition evaluateBatch_nonconst ::
  "build \<Rightarrow> ('a::zero, 'x) evaluate \<Rightarrow> nat list \<Rightarrow> 'a matrix list
     \<Rightarrow> ('x failure + 'a list) \<times> 'a call list" where
  "evaluateBatch_nonconst b f schedule S_multi = evaluateBatch b f schedule S_multi"


section \<open>Batch marginal gain: many sets, one element\<close>

text \<open>
  \<^verbatim>\<open>operator()(const std::vector<MatrixX>& S_multi, VectorXRef elem) const\<close>, lines 116 to
  139. The first loop pushes a copy of each set, resizes the copy at the back and assigns
  its new row. There is no check of the widths here: a mismatch is the comma initialiser's
  violated assertion.
\<close>

fun S_multi_elem_loop :: "'a::zero vector \<Rightarrow> 'a matrix list \<Rightarrow> 'a matrix list \<Rightarrow> 'a matrix list option" where
  "S_multi_elem_loop elem [] S_multi_elem = Some S_multi_elem"
| "S_multi_elem_loop elem (S_elem # rest) S_multi_elem =
     (let pushed = S_multi_elem @ [S_elem];
          resized = pushed[length pushed - 1 := conservativeResize (rows S_elem + 1) (last pushed)]
      in case assign_row (rows S_elem) elem (last resized) of
           None \<Rightarrow> None
         | Some M \<Rightarrow> S_multi_elem_loop elem rest (resized[length resized - 1 := M]))"

text \<open>The last loop, over \<open>i\<close> from 0 while \<open>i < utilityS_multi.size()\<close>.\<close>

function marginalGains_loop :: "nat \<Rightarrow> 'a::minus list \<Rightarrow> 'a list \<Rightarrow> 'a list \<Rightarrow> 'a list" where
  "marginalGains_loop i utilityS_multi_elem utilityS_multi marginalGains =
     (if i < length utilityS_multi
      then marginalGains_loop (i + 1) utilityS_multi_elem utilityS_multi
             (marginalGains[i := utilityS_multi_elem ! i - utilityS_multi ! i])
      else marginalGains)"
  by pat_completeness auto
termination
  by (relation "measure (\<lambda>(i, A, B, out). length B - i)") auto

declare marginalGains_loop.simps [simp del]

definition marginalGainBatch_multi ::
  "build \<Rightarrow> ('a::{zero,minus}, 'x) evaluate \<Rightarrow> nat list \<Rightarrow> nat list \<Rightarrow> 'a matrix list \<Rightarrow> 'a vector
     \<Rightarrow> ('x failure + 'a list) \<times> 'a call list" where
  "marginalGainBatch_multi b f schedule1 schedule2 S_multi elem =
     (case S_multi_elem_loop elem S_multi [] of
        None \<Rightarrow> (Inl eigen_assertion, [])
      | Some S_multi_elem \<Rightarrow>
          (case evaluateBatch b f schedule1 S_multi of
             (Inl e, calls1) \<Rightarrow> (Inl e, [evaluateBatch_call S_multi calls1])
           | (Inr utilityS_multi, calls1) \<Rightarrow>
               (case evaluateBatch b f schedule2 S_multi_elem of
                  (Inl e, calls2) \<Rightarrow>
                    (Inl e, [evaluateBatch_call S_multi calls1, evaluateBatch_call S_multi_elem calls2])
                | (Inr utilityS_multi_elem, calls2) \<Rightarrow>
                    (let marginalGains = replicate (length S_multi) 0
                     in (Inr (marginalGains_loop 0 utilityS_multi_elem utilityS_multi marginalGains),
                         [evaluateBatch_call S_multi calls1, evaluateBatch_call S_multi_elem calls2])))))"

text \<open>The non-const overload, lines 148 to 150.\<close>

definition marginalGainBatch_multi_nonconst ::
  "build \<Rightarrow> ('a::{zero,minus}, 'x) evaluate \<Rightarrow> nat list \<Rightarrow> nat list \<Rightarrow> 'a matrix list \<Rightarrow> 'a vector
     \<Rightarrow> ('x failure + 'a list) \<times> 'a call list" where
  "marginalGainBatch_multi_nonconst b f schedule1 schedule2 S_multi elem =
     marginalGainBatch_multi b f schedule1 schedule2 S_multi elem"


section \<open>Batch marginal gain: one set, many elements\<close>

text \<open>
  \<^verbatim>\<open>operator()(const MatrixX& S, std::vector<VectorXRef> elems) const\<close>, lines 159 to 185.
  \<open>S_elems\<close> starts as \<open>elems.size()\<close> copies of \<open>S\<close>; the first loop resizes copy \<open>i\<close>
  and assigns \<open>elems[i]\<close> to its new row, again without a check of the widths. Then \<open>S\<close>
  is evaluated, then all of \<open>S_elems\<close> in one batch, and the last loop subtracts.

  Both loops of this function count with \<^verbatim>\<open>unsigned int i\<close>, 32 bits, against
  \<^verbatim>\<open>elems.size()\<close>, 64 bits: the counter is a word, the comparison is between its value
  and the length, and \<^verbatim>\<open>i++\<close> wraps around. (The loops of lines 92 and 135 count with
  \<^verbatim>\<open>unsigned long\<close>, which is as wide as the size.) A loop that may not end is a
  partial function with an optional result: \<open>None\<close> is the loop that never ends, \<open>Some\<close>
  holds what it returns. For the first loop that is again optional, \<open>None\<close> being the
  violated assertion of the comma initialiser.
\<close>

partial_function (option) S_elems_loop ::
  "32 word \<Rightarrow> 'a::zero vector list \<Rightarrow> 'a matrix \<Rightarrow> 'a matrix list \<Rightarrow> 'a matrix list option option" where
  "S_elems_loop i elems S S_elems =
     (if unat i < length elems then
        (let elem = elems ! unat i;
             resized = S_elems[unat i := conservativeResize (rows S + 1) (S_elems ! unat i)]
         in case assign_row (rows S) elem (resized ! unat i) of
              None \<Rightarrow> Some None
            | Some M \<Rightarrow> S_elems_loop (i + 1) elems S (resized[unat i := M]))
      else Some (Some S_elems))"

partial_function (option) gains_loop ::
  "32 word \<Rightarrow> nat \<Rightarrow> 'a::minus list \<Rightarrow> 'a \<Rightarrow> 'a list \<Rightarrow> 'a list option" where
  "gains_loop i n S_elems_funcValue S_funcValue gains =
     (if unat i < n
      then gains_loop (i + 1) n S_elems_funcValue S_funcValue
             (gains[unat i := S_elems_funcValue ! unat i - S_funcValue])
      else Some gains)"

definition marginalGainBatch_elems ::
  "build \<Rightarrow> ('a::{zero,minus}, 'x) evaluate \<Rightarrow> nat list \<Rightarrow> 'a matrix \<Rightarrow> 'a vector list
     \<Rightarrow> (('x failure + 'a list) \<times> 'a call list) option" where
  "marginalGainBatch_elems b f schedule S elems =
     (case S_elems_loop 0 elems S (replicate (length elems) S) of
        None \<Rightarrow> None
      | Some None \<Rightarrow> Some (Inl eigen_assertion, [])
      | Some (Some S_elems) \<Rightarrow>
          (case f S of
             Inl x \<Rightarrow> Some (Inl (evaluate_failure x), [evaluate_call S])
           | Inr S_funcValue \<Rightarrow>
               (case evaluateBatch b f schedule S_elems of
                  (Inl e, calls) \<Rightarrow> Some (Inl e, [evaluate_call S, evaluateBatch_call S_elems calls])
                | (Inr S_elems_funcValue, calls) \<Rightarrow>
                    (let gains = replicate (length elems) 0
                     in case gains_loop 0 (length elems) S_elems_funcValue S_funcValue gains of
                          None \<Rightarrow> None
                        | Some gains' \<Rightarrow>
                            Some (Inr gains', [evaluate_call S, evaluateBatch_call S_elems calls])))))"

text \<open>
  The non-const overload, lines 194 to 196. \<^verbatim>\<open>std::move\<close> of the const reference \<open>S\<close>
  moves nothing; \<open>elems\<close> is the overload's own copy.
\<close>

definition marginalGainBatch_elems_nonconst ::
  "build \<Rightarrow> ('a::{zero,minus}, 'x) evaluate \<Rightarrow> nat list \<Rightarrow> 'a matrix \<Rightarrow> 'a vector list
     \<Rightarrow> (('x failure + 'a list) \<times> 'a call list) option" where
  "marginalGainBatch_elems_nonconst b f schedule S elems = marginalGainBatch_elems b f schedule S elems"


section \<open>A reference function\<close>

text \<open>
  The deterministic reference function of the spec's tests, the sum of all entries, over
  the integers; it never throws.
\<close>

definition sum_of_entries :: "(int, unit) evaluate" where
  "sum_of_entries S = Inr (sum_list (concat (rowlist S)))"



section \<open>Propagation of a failure, in the spec's words\<close>





section \<open>Worker-count policy\<close>

lemma sint_ge_1_uint:
  fixes n :: "32 word"
  assumes "1 \<le> sint n"
  shows "uint n = sint n"
proof -
  have lt: "sint n < 2 ^ 31" using sint_lt [of n] by simp
  have "uint (word_of_int k :: 32 word) = take_bit 32 k" for k
    by (simp add: uint_word_of_int_eq)
  from this [of "sint n"] have "uint n = take_bit 32 (sint n)" by simp
  also have "\<dots> = sint n" using assms lt by (simp add: take_bit_int_eq_self)
  finally show ?thesis .
qed

lemma setWorkerCount_nonzero: "getWorkerCount (setWorkerCount hc n this) \<noteq> 0"
proof (cases "1 \<le> sint n")
  case True
  then have "n \<noteq> 0" by auto
  with True show ?thesis by (simp add: setWorkerCount_def getWorkerCount_def)
next
  case False
  then show ?thesis
    by (simp add: setWorkerCount_def getWorkerCount_def Let_def word_greater_zero_iff)
qed

text \<open>
  C7. After \<^verbatim>\<open>setWorkerCount(n)\<close>, \<^verbatim>\<open>getWorkerCount()\<close> is exactly \<open>n\<close> when \<open>n \<ge> 1\<close>;
  otherwise it is the hardware concurrency the platform reported, or 1 when that report
  was 0. The constructor, with an explicit argument or with the default \<open>-1\<close>, stores what
  \<^verbatim>\<open>setWorkerCount\<close> stores for the same argument.
\<close>

theorem setWorkerCount_resolution:
  "(1 \<le> sint n \<longrightarrow> uint (getWorkerCount (setWorkerCount hc n this)) = sint n)
   \<and> (sint n < 1 \<longrightarrow> getWorkerCount (setWorkerCount hc n this) = (if hc = 0 then 1 else hc))
   \<and> getWorkerCount (SubmodularFunction_ctor hc n) = getWorkerCount (setWorkerCount hc n this)
   \<and> getWorkerCount (SubmodularFunction_ctor_default hc) = (if hc = 0 then 1 else hc)"
proof -
  have a: "1 \<le> sint n \<longrightarrow> uint (getWorkerCount (setWorkerCount hc n this)) = sint n"
    by (simp add: setWorkerCount_def getWorkerCount_def sint_ge_1_uint)
  have b: "sint n < 1 \<longrightarrow> getWorkerCount (setWorkerCount hc n this) = (if hc = 0 then 1 else hc)"
    by (simp add: setWorkerCount_def getWorkerCount_def Let_def word_greater_zero_iff)
  have c: "getWorkerCount (SubmodularFunction_ctor hc n) = getWorkerCount (setWorkerCount hc n this)"
    by (simp add: SubmodularFunction_ctor_def setWorkerCount_def getWorkerCount_def)
  have d: "getWorkerCount (SubmodularFunction_ctor_default hc) = (if hc = 0 then 1 else hc)"
    by (simp add: SubmodularFunction_ctor_default_def SubmodularFunction_ctor_def
        setWorkerCount_def getWorkerCount_def Let_def word_greater_zero_iff)
  from a b c d show ?thesis by blast
qed

theorem setWorkerCount_resolution_witness:
  "uint (getWorkerCount (setWorkerCount 4 5 \<lparr>workerCount = 1\<rparr>)) = 5
   \<and> getWorkerCount (setWorkerCount 4 0 \<lparr>workerCount = 1\<rparr>) = 4
   \<and> getWorkerCount (setWorkerCount 4 (- 1) \<lparr>workerCount = 7\<rparr>) = 4
   \<and> getWorkerCount (setWorkerCount 0 (- 1) \<lparr>workerCount = 7\<rparr>) = 1
   \<and> getWorkerCount (SubmodularFunction_ctor_default 4) = 4"
  using setWorkerCount_resolution [of 5 4 "\<lparr>workerCount = 1\<rparr>"]
    setWorkerCount_resolution [of 0 4 "\<lparr>workerCount = 1\<rparr>"]
    setWorkerCount_resolution [of "- 1" 4 "\<lparr>workerCount = 7\<rparr>"]
    setWorkerCount_resolution [of "- 1" 0 "\<lparr>workerCount = 7\<rparr>"]
  by simp

lemma setWorkerCount_calls_nonzero:
  "getWorkerCount this \<noteq> 0 \<Longrightarrow> getWorkerCount (setWorkerCount_calls calls this) \<noteq> 0"
proof (induction calls arbitrary: this)
  case Nil
  then show ?case by simp
next
  case (Cons c calls)
  obtain hc n where c: "c = (hc, n)" by (cases c)
  show ?case
    unfolding c setWorkerCount_calls.simps
    by (rule Cons.IH) (rule setWorkerCount_nonzero)
qed

text \<open>
  C9. The stored worker count is at least 1 after construction with any argument and after
  any sequence of \<^verbatim>\<open>setWorkerCount\<close> calls with any arguments, whatever the platform
  reports as its hardware concurrency at each of them.
\<close>

theorem workerCount_at_least_one:
  "1 \<le> unat (getWorkerCount (setWorkerCount_calls calls (SubmodularFunction_ctor hc n)))"
proof -
  have "getWorkerCount (SubmodularFunction_ctor hc n) \<noteq> 0"
    unfolding SubmodularFunction_ctor_def by (rule setWorkerCount_nonzero)
  then have "getWorkerCount (setWorkerCount_calls calls (SubmodularFunction_ctor hc n)) \<noteq> 0"
    by (rule setWorkerCount_calls_nonzero)
  then show ?thesis
    by (simp add: leI unsigned_eq_0_iff)
qed


section \<open>What the loops compute\<close>

lemma resize_assign:
  "length e = cols S \<Longrightarrow> assign_row (rows S) e (conservativeResize (Suc (rows S)) S) = Some (appended S e)"
  by (simp add: assign_row_def conservativeResize_def rows_def appended_def)

lemma marginalGain_match:
  assumes "S < length h" "cols (h ! S) = length elem"
  shows "marginalGain ord f h S elem =
     (case difference_of_calls ord f (appended (h ! S) elem) (h ! S) of (r, calls) \<Rightarrow> (r, calls, h))"
  using assms
  by (simp add: marginalGain_def Let_def nth_append resize_assign split: prod.splits)

lemma marginalGain_mismatch:
  "cols (h ! S) \<noteq> length elem \<Longrightarrow>
   marginalGain ord f h S elem = (Inl (runtime_error (mismatch_message (cols (h ! S)) (length elem))), [], h)"
  by (simp add: marginalGain_def)

lemma marginalGain_of_match:
  "cols S = length elem \<Longrightarrow> marginalGain_of ord f S elem = difference_of_calls ord f (appended S elem) S"
  by (simp add: marginalGain_of_def marginalGain_match split: prod.splits)

lemma difference_of_calls_value:
  "f A = Inr a \<Longrightarrow> f B = Inr b \<Longrightarrow> fst (difference_of_calls ord f A B) = Inr (a - b)"
  by (simp add: difference_of_calls_def split: operand_order.splits)

lemma evaluateBatch_loop_value:
  "\<forall>i\<in>set sch. i < length us \<and> f (Ss ! i) = Inr (g (Ss ! i)) \<Longrightarrow>
   evaluateBatch_loop b f Ss sch us =
     (Inr (map (\<lambda>i. if i \<in> set sch then g (Ss ! i) else us ! i) [0..<length us]),
      map (\<lambda>i. evaluate_call (Ss ! i)) sch)"
proof (induction sch arbitrary: us)
  case Nil
  then show ?case by (simp add: map_nth)
next
  case (Cons i sch)
  have "\<forall>j\<in>set sch. j < length (us[i := g (Ss ! i)]) \<and> f (Ss ! j) = Inr (g (Ss ! j))"
    using Cons.prems by simp
  from Cons.IH [OF this] show ?case
    using Cons.prems by (auto simp: nth_list_update)
qed

lemma omp_schedule_sort: "omp_schedule w N sch \<Longrightarrow> sort sch = [0..<N]"
  by (cases "w = 1") (simp_all add: omp_schedule_def sorted_sort_id)

lemma omp_schedule_set: "omp_schedule w N sch \<Longrightarrow> set sch = {0..<N}"
proof -
  assume "omp_schedule w N sch"
  then have "set (sort sch) = set [0..<N]" by (simp add: omp_schedule_sort)
  then show ?thesis by simp
qed

lemma omp_schedule_distinct: "omp_schedule w N sch \<Longrightarrow> distinct sch"
proof -
  assume "omp_schedule w N sch"
  then have "distinct (sort sch)" by (simp add: omp_schedule_sort)
  then show ?thesis by simp
qed

lemma evaluateBatch_value:
  assumes "omp_schedule w (length Ss) sch" and "\<forall>S\<in>set Ss. f S = Inr (g S)"
  shows "evaluateBatch b f sch Ss = (Inr (map g Ss), map (\<lambda>i. evaluate_call (Ss ! i)) sch)"
proof -
  have s: "set sch = {0..<length Ss}" using assms(1) by (rule omp_schedule_set)
  have "\<forall>i\<in>set sch. i < length (replicate (length Ss) (0::'a)) \<and> f (Ss ! i) = Inr (g (Ss ! i))"
    using assms(2) s by simp
  from evaluateBatch_loop_value [OF this]
  have "evaluateBatch b f sch Ss =
     (Inr (map (\<lambda>i. if i \<in> set sch then g (Ss ! i) else replicate (length Ss) 0 ! i) [0..<length Ss]),
      map (\<lambda>i. evaluate_call (Ss ! i)) sch)"
    by (simp add: evaluateBatch_def)
  moreover have "map (\<lambda>i. if i \<in> set sch then g (Ss ! i) else replicate (length Ss) 0 ! i) [0..<length Ss]
      = map g Ss"
    by (rule nth_equalityI) (simp_all add: s)
  ultimately show ?thesis by simp
qed

lemma S_multi_elem_loop_appended:
  "\<forall>S\<in>set Ss. cols S = length e \<Longrightarrow>
   S_multi_elem_loop e Ss acc = Some (acc @ map (\<lambda>S. appended S e) Ss)"
  by (induction Ss arbitrary: acc) (simp_all add: Let_def resize_assign)

lemma marginalGains_loop_eq:
  "length A = length B \<Longrightarrow> length out = length B \<Longrightarrow> i \<le> length B \<Longrightarrow>
   marginalGains_loop i A B out = take i out @ map (\<lambda>j. A ! j - B ! j) [i..<length B]"
proof (induction i A B out rule: marginalGains_loop.induct)
  case (1 i A B out)
  show ?case
  proof (cases "i < length B")
    case True
    have "marginalGains_loop i A B out = marginalGains_loop (i + 1) A B (out[i := A ! i - B ! i])"
      using True by (subst marginalGains_loop.simps) simp
    also have "\<dots> = take (i + 1) (out[i := A ! i - B ! i]) @ map (\<lambda>j. A ! j - B ! j) [i + 1..<length B]"
      using True "1.prems" by (intro "1.IH") simp_all
    also have "take (i + 1) (out[i := A ! i - B ! i]) = take i out @ [A ! i - B ! i]"
      using True "1.prems" by (simp add: take_Suc_conv_app_nth)
    finally show ?thesis using True by (simp add: upt_conv_Cons)
  next
    case False
    then show ?thesis using "1.prems" by (subst marginalGains_loop.simps) simp
  qed
qed

lemma unat_counter_Suc:
  fixes i :: "32 word"
  assumes "unat i < n" and "n < 2 ^ 32"
  shows "unat (i + 1) = Suc (unat i)"
proof -
  have "unat i + unat (1 :: 32 word) < 2 ^ LENGTH(32)" using assms by simp
  then have "unat (i + 1) = unat i + unat (1 :: 32 word)" by (simp only: unat_add_lem)
  then show ?thesis by simp
qed

lemma unat_counter_below: "unat (i :: 32 word) < 2 ^ 32"
  using unsigned_less [of i, where 'a = nat] by simp

lemma gains_loop_eq:
  "length out = n \<Longrightarrow> n < 2 ^ 32 \<Longrightarrow> unat i \<le> n \<Longrightarrow>
   gains_loop i n A b out = Some (take (unat i) out @ map (\<lambda>j. A ! j - b) [unat i..<n])"
proof (induction "n - unat i" arbitrary: i out)
  case 0
  then have "\<not> unat i < n" by simp
  then have "gains_loop i n A b out = Some out" by (subst gains_loop.simps) simp
  with 0 show ?case by simp
next
  case (Suc k)
  then have lt: "unat i < n" by simp
  have nx: "unat (i + 1) = Suc (unat i)" using lt Suc.prems(2) by (rule unat_counter_Suc)
  have "gains_loop i n A b out = gains_loop (i + 1) n A b (out[unat i := A ! unat i - b])"
    using lt by (subst gains_loop.simps) simp
  also have "\<dots> = Some (take (unat (i + 1)) (out[unat i := A ! unat i - b])
                       @ map (\<lambda>j. A ! j - b) [unat (i + 1)..<n])"
    using Suc.hyps(2) Suc.prems lt nx by (intro Suc.hyps(1)) simp_all
  also have "take (unat (i + 1)) (out[unat i := A ! unat i - b]) = take (unat i) out @ [A ! unat i - b]"
    using lt Suc.prems(1) by (simp add: nx take_Suc_conv_app_nth)
  finally show ?case using lt by (simp add: nx upt_conv_Cons)
qed

lemma S_elems_loop_appended:
  "\<forall>e\<in>set elems. length e = cols S \<Longrightarrow> length acc = length elems \<Longrightarrow> length elems < 2 ^ 32 \<Longrightarrow>
   unat i \<le> length elems \<Longrightarrow> \<forall>j. unat i \<le> j \<and> j < length elems \<longrightarrow> acc ! j = S \<Longrightarrow>
   S_elems_loop i elems S acc = Some (Some (take (unat i) acc @ map (appended S) (drop (unat i) elems)))"
proof (induction "length elems - unat i" arbitrary: i acc)
  case 0
  then have "\<not> unat i < length elems" by simp
  then have "S_elems_loop i elems S acc = Some (Some acc)" by (subst S_elems_loop.simps) simp
  with 0 show ?case by simp
next
  case (Suc k)
  then have lt: "unat i < length elems" by simp
  let ?M = "appended S (elems ! unat i)"
  have nx: "unat (i + 1) = Suc (unat i)" using lt Suc.prems(3) by (rule unat_counter_Suc)
  have a: "acc ! unat i = S" using lt Suc.prems(5) by simp
  have len: "length (elems ! unat i) = cols S" using lt Suc.prems(1) by simp
  have step: "S_elems_loop i elems S acc = S_elems_loop (i + 1) elems S (acc[unat i := ?M])"
    using lt Suc.prems(2) len a
    by (subst S_elems_loop.simps) (simp add: Let_def resize_assign)
  have "S_elems_loop (i + 1) elems S (acc[unat i := ?M]) =
      Some (Some (take (unat (i + 1)) (acc[unat i := ?M]) @ map (appended S) (drop (unat (i + 1)) elems)))"
  proof (rule Suc.hyps(1))
    show "k = length elems - unat (i + 1)" using Suc.hyps(2) nx by simp
    show "\<forall>e\<in>set elems. length e = cols S" by (rule Suc.prems(1))
    show "length (acc[unat i := ?M]) = length elems" using Suc.prems(2) by simp
    show "length elems < 2 ^ 32" by (rule Suc.prems(3))
    show "unat (i + 1) \<le> length elems" using lt nx by simp
    show "\<forall>j. unat (i + 1) \<le> j \<and> j < length elems \<longrightarrow> acc[unat i := ?M] ! j = S"
      using Suc.prems(5) nx by simp
  qed
  also have "take (unat (i + 1)) (acc[unat i := ?M]) = take (unat i) acc @ [?M]"
    using lt Suc.prems(2) by (simp add: nx take_Suc_conv_app_nth)
  also have "(take (unat i) acc @ [?M]) @ map (appended S) (drop (unat (i + 1)) elems)
      = take (unat i) acc @ map (appended S) (drop (unat i) elems)"
    using lt by (simp add: nx Cons_nth_drop_Suc [symmetric])
  finally show ?case using step by simp
qed

lemma S_elems_loop_returns_bounded:
  assumes y: "S_elems_loop i elems S acc = Some y"
  shows "\<not> (2 ^ 32 \<le> length elems \<and> (\<forall>e\<in>set elems. length e = cols S)
          \<and> length acc = length elems \<and> (\<forall>M\<in>set acc. cols M = cols S))"
proof (rule S_elems_loop.raw_induct
    [where P = "\<lambda>i elems S acc y. \<not> (2 ^ 32 \<le> length elems \<and> (\<forall>e\<in>set elems. length e = cols S)
        \<and> length acc = length elems \<and> (\<forall>M\<in>set acc. cols M = cols S))", OF _ y])
  fix loop :: "32 word \<Rightarrow> 'a list list \<Rightarrow> 'a matrix \<Rightarrow> 'a matrix list \<Rightarrow> 'a matrix list option option"
  fix i elems S acc y
  assume IH: "\<And>i elems S acc y. loop i elems S acc = Some y \<Longrightarrow>
      \<not> (2 ^ 32 \<le> length elems \<and> (\<forall>e\<in>set elems. length e = cols S)
          \<and> length acc = length elems \<and> (\<forall>M\<in>set acc. cols M = cols S))"
  assume body: "(if unat i < length elems then
        (let elem = elems ! unat i;
             resized = acc[unat i := conservativeResize (rows S + 1) (acc ! unat i)]
         in case assign_row (rows S) elem (resized ! unat i) of
              None \<Rightarrow> Some None
            | Some M \<Rightarrow> loop (i + 1) elems S (resized[unat i := M]))
      else Some (Some acc)) = Some y"
  show "\<not> (2 ^ 32 \<le> length elems \<and> (\<forall>e\<in>set elems. length e = cols S)
          \<and> length acc = length elems \<and> (\<forall>M\<in>set acc. cols M = cols S))"
  proof
    assume inv: "2 ^ 32 \<le> length elems \<and> (\<forall>e\<in>set elems. length e = cols S)
        \<and> length acc = length elems \<and> (\<forall>M\<in>set acc. cols M = cols S)"
    have lt: "unat i < length elems" using inv unat_counter_below [of i] by simp
    let ?R = "conservativeResize (rows S + 1) (acc ! unat i)"
    have c: "cols (acc ! unat i) = cols S" using inv lt by simp
    have e: "length (elems ! unat i) = cols S" using inv lt by simp
    let ?M = "?R\<lparr>rowlist := (rowlist ?R)[rows S := elems ! unat i]\<rparr>"
    have asg: "assign_row (rows S) (elems ! unat i) ?R = Some ?M"
      using c e by (simp add: assign_row_def conservativeResize_def rows_def)
    have cM: "cols ?M = cols S" using c by (simp add: conservativeResize_def)
    from body lt asg inv
    have rec: "loop (i + 1) elems S (acc[unat i := ?M]) = Some y"
      by (simp add: Let_def)
    have "\<forall>M\<in>set (acc[unat i := ?M]). cols M = cols S"
      using inv cM by (auto dest!: set_update_subset_insert [THEN subsetD])
    with IH [OF rec] inv show False by simp
  qed
qed

lemma S_elems_loop_never_returns:
  assumes "2 ^ 32 \<le> length elems"
      and "\<forall>e\<in>set elems. length e = cols S"
      and "length acc = length elems"
      and "\<forall>M\<in>set acc. cols M = cols S"
  shows "S_elems_loop i elems S acc = None"
proof (cases "S_elems_loop i elems S acc")
  case None
  then show ?thesis .
next
  case (Some y)
  from S_elems_loop_returns_bounded [OF this] assms show ?thesis by blast
qed


section \<open>Decimal rendering of the sizes\<close>

lemma digit_char_in: "d < 10 \<Longrightarrow> digit_char d \<in> set ''0123456789''"
  unfolding digit_char_def by (rule nth_mem) simp

lemma digit_char_inj: "d < 10 \<Longrightarrow> d' < 10 \<Longrightarrow> digit_char d = digit_char d' \<Longrightarrow> d = d'"
proof -
  assume d: "d < 10" and d': "d' < 10" and eq: "digit_char d = digit_char d'"
  have "distinct ''0123456789''" by simp
  moreover have "d < length ''0123456789''" "d' < length ''0123456789''" using d d' by simp_all
  ultimately show "d = d'"
    using eq unfolding digit_char_def by (simp only: nth_eq_iff_index_eq)
qed

lemma to_string_digits: "set (to_string n) \<subseteq> set ''0123456789''"
proof (induction n rule: to_string.induct)
  case (1 n)
  show ?case
  proof (cases "n < 10")
    case True
    then have "to_string n = [digit_char n]" by (subst to_string.simps) simp
    with True digit_char_in [of n] show ?thesis by simp
  next
    case False
    then have "to_string n = to_string (n div 10) @ [digit_char (n mod 10)]"
      by (subst to_string.simps) simp
    moreover have "digit_char (n mod 10) \<in> set ''0123456789''" by (rule digit_char_in) simp
    ultimately show ?thesis using "1.IH" [OF False] by simp
  qed
qed

lemma to_string_nonempty: "to_string n \<noteq> []"
  by (subst to_string.simps) simp

lemma to_string_inj: "to_string m = to_string n \<Longrightarrow> m = n"
proof (induction m arbitrary: n rule: to_string.induct)
  case (1 m)
  show ?case
  proof (cases "m < 10")
    case m: True
    then have tm: "to_string m = [digit_char m]" by (subst to_string.simps) simp
    show ?thesis
    proof (cases "n < 10")
      case True
      then have "to_string n = [digit_char n]" by (subst to_string.simps) simp
      with tm "1.prems" have "digit_char m = digit_char n" by simp
      with m True show ?thesis by (rule digit_char_inj)
    next
      case False
      then have "to_string n = to_string (n div 10) @ [digit_char (n mod 10)]"
        by (subst to_string.simps) simp
      with tm "1.prems" have "to_string (n div 10) = []" by simp
      then show ?thesis by (simp add: to_string_nonempty)
    qed
  next
    case m: False
    then have tm: "to_string m = to_string (m div 10) @ [digit_char (m mod 10)]"
      by (subst to_string.simps) simp
    show ?thesis
    proof (cases "n < 10")
      case True
      then have "to_string n = [digit_char n]" by (subst to_string.simps) simp
      with tm "1.prems" have "to_string (m div 10) = []" by simp
      then show ?thesis by (simp add: to_string_nonempty)
    next
      case False
      then have "to_string n = to_string (n div 10) @ [digit_char (n mod 10)]"
        by (subst to_string.simps) simp
      with tm "1.prems" have a: "to_string (m div 10) = to_string (n div 10)"
        and b: "digit_char (m mod 10) = digit_char (n mod 10)" by simp_all
      from "1.IH" [OF m a] have "m div 10 = n div 10" .
      moreover from b have "m mod 10 = n mod 10" by (intro digit_char_inj) simp_all
      ultimately show ?thesis by (metis div_mult_mod_eq)
    qed
  qed
qed

lemma digits_then_other:
  assumes "set xs \<subseteq> D" "set ys \<subseteq> D" "a \<notin> D" "b \<notin> D" "xs @ a # r = ys @ b # s"
  shows "xs = ys \<and> r = s"
proof -
  have "takeWhile (\<lambda>c. c \<in> D) (xs @ a # r) = xs"
    using assms(1,3) by (simp add: takeWhile_tail subset_iff)
  moreover have "takeWhile (\<lambda>c. c \<in> D) (ys @ b # s) = ys"
    using assms(2,4) by (simp add: takeWhile_tail subset_iff)
  ultimately have "xs = ys" using assms(5) by simp
  with assms(5) show ?thesis by simp
qed

lemma mismatch_message_inj:
  assumes "mismatch_message c n = mismatch_message c' n'"
  shows "c = c' \<and> n = n'"
proof -
  from assms have eq: "to_string c @ CHR '' '' # (''vs. '' @ to_string n @ '').'')
      = to_string c' @ CHR '' '' # (''vs. '' @ to_string n' @ '').'')"
    by (simp add: mismatch_message_def)
  have sp: "CHR '' '' \<notin> set ''0123456789''" by simp
  from digits_then_other [OF to_string_digits to_string_digits sp sp eq]
  have "to_string c = to_string c'" and "to_string n = to_string n'" by simp_all
  then show ?thesis by (simp add: to_string_inj)
qed


section \<open>Marginal gain of one element: results\<close>

lemma difference_of_calls_calls:
  "f A = Inr a \<Longrightarrow> f B = Inr b \<Longrightarrow>
   set (snd (difference_of_calls ord f A B)) = {evaluate_call A, evaluate_call B}"
  by (cases ord) (auto simp: difference_of_calls_def)

text \<open>
  C1. Let \<open>S\<close> be a valid reference into the store. Whatever else happens, the store the
  caller finds after \<^verbatim>\<open>marginalGain(S, e)\<close> is the store before it: \<open>S\<close> is not written,
  and the augmented copy is gone. When \<open>e\<close> has as many coefficients as \<open>S\<close> has columns
  and the primitive returns \<open>v'\<close> on \<open>S\<close> with \<open>e\<close> appended as a new last row and \<open>v\<close> on
  \<open>S\<close>, the call returns \<open>v' - v\<close>, and the primitive was called on exactly these two
  matrices, in either order of the operands.
\<close>

theorem marginalGain_difference:
  assumes "S < length h"
  shows "snd (snd (marginalGain ord f h S e)) = h
     \<and> (cols (h ! S) = length e \<longrightarrow> f (appended (h ! S) e) = Inr v' \<longrightarrow> f (h ! S) = Inr v \<longrightarrow>
          fst (marginalGain ord f h S e) = Inr (v' - v)
          \<and> set (fst (snd (marginalGain ord f h S e)))
              = {evaluate_call (appended (h ! S) e), evaluate_call (h ! S)})"
proof -
  have store: "snd (snd (marginalGain ord f h S e)) = h"
  proof (cases "cols (h ! S) = length e")
    case True
    with assms show ?thesis by (simp add: marginalGain_match split: prod.splits)
  next
    case False
    then show ?thesis by (simp add: marginalGain_mismatch)
  qed
  have "fst (marginalGain ord f h S e) = Inr (v' - v)
      \<and> set (fst (snd (marginalGain ord f h S e))) = {evaluate_call (appended (h ! S) e), evaluate_call (h ! S)}"
    if m: "cols (h ! S) = length e" and a: "f (appended (h ! S) e) = Inr v'" and b: "f (h ! S) = Inr v"
  proof -
    have eq: "marginalGain ord f h S e =
        (fst (difference_of_calls ord f (appended (h ! S) e) (h ! S)),
         snd (difference_of_calls ord f (appended (h ! S) e) (h ! S)), h)"
      using assms m by (simp add: marginalGain_match split: prod.splits)
    show ?thesis
      by (simp add: eq difference_of_calls_value [OF a b] difference_of_calls_calls [OF a b])
  qed
  with store show ?thesis by blast
qed

theorem marginalGain_difference_witness:
  "snd (snd (marginalGain left_first sum_of_entries [\<lparr>cols = 2, rowlist = [[1, 0], [0, 1]]\<rparr>] 0 [1, 1]))
      = [\<lparr>cols = 2, rowlist = [[1, 0], [0, 1]]\<rparr>]
   \<and> fst (marginalGain left_first sum_of_entries [\<lparr>cols = 2, rowlist = [[1, 0], [0, 1]]\<rparr>] 0 [1, 1]) = Inr 2"
proof -
  let ?h = "[\<lparr>cols = 2, rowlist = [[1, 0], [0, 1]]\<rparr>] :: int matrix list"
  have r: "0 < length ?h" by simp
  have d: "cols (?h ! 0) = length [1, 1 :: int]" by simp
  have a: "sum_of_entries (appended (?h ! 0) [1, 1]) = Inr 4"
    by (simp add: sum_of_entries_def appended_def)
  have b: "sum_of_entries (?h ! 0) = Inr 2"
    by (simp add: sum_of_entries_def)
  from marginalGain_difference [OF r, where e = "[1, 1]" and f = sum_of_entries
      and v' = 4 and v = 2 and ord = left_first] d a b
  show ?thesis by simp
qed

text \<open>
  C4. For a valid reference \<open>S\<close>, \<^verbatim>\<open>marginalGain(S, e)\<close> ends in the \<^verbatim>\<open>std::runtime_error\<close> of this class if and
  only if the number of coefficients of \<open>e\<close> differs from the number of columns of \<open>S\<close>,
  whatever the primitive does. The error's message then names both sizes, and they can be
  read back from it: no other pair of sizes gives the same message. The primitive has not
  been called and the store is as it was, so nothing outside this call is affected.
\<close>

theorem marginalGain_DimensionMismatch:
  assumes "S < length h"
  shows "(cols (h ! S) \<noteq> length e \<longleftrightarrow> (\<exists>m. fst (marginalGain ord f h S e) = Inl (runtime_error m)))
   \<and> (cols (h ! S) \<noteq> length e \<longrightarrow>
        marginalGain ord f h S e
          = (Inl (runtime_error (mismatch_message (cols (h ! S)) (length e))), [], h))
   \<and> (\<forall>c n. mismatch_message c n = mismatch_message (cols (h ! S)) (length e) \<longrightarrow>
        c = cols (h ! S) \<and> n = length e)"
proof -
  have "\<not> (\<exists>m. fst (marginalGain ord f h S e) = Inl (runtime_error m))" if "cols (h ! S) = length e"
    using that assms
    by (cases ord)
      (auto simp: marginalGain_match difference_of_calls_def split: sum.splits prod.splits)
  moreover have "marginalGain ord f h S e
          = (Inl (runtime_error (mismatch_message (cols (h ! S)) (length e))), [], h)"
    if "cols (h ! S) \<noteq> length e"
    using that by (rule marginalGain_mismatch)
  moreover have "c = cols (h ! S) \<and> n = length e"
    if "mismatch_message c n = mismatch_message (cols (h ! S)) (length e)" for c n
    using that by (rule mismatch_message_inj)
  ultimately show ?thesis by auto
qed

theorem marginalGain_DimensionMismatch_witness:
  "marginalGain right_first sum_of_entries [\<lparr>cols = 3, rowlist = [[1, 0, 2]]\<rparr>] 0 [1, 1]
     = (Inl (runtime_error
         ''SubmodularFunction::operator(): The number of columns in matrix `S` and the number of elements in vector `elem` do not match (3 vs. 2).''),
        [], [\<lparr>cols = 3, rowlist = [[1, 0, 2]]\<rparr>])"
proof -
  let ?h = "[\<lparr>cols = 3, rowlist = [[1, 0, 2]]\<rparr>] :: int matrix list"
  have r: "0 < length ?h" by simp
  have d: "cols (?h ! 0) \<noteq> length [1, 1 :: int]" by simp
  from marginalGain_DimensionMismatch [OF r, where e = "[1, 1]"
      and ord = right_first and f = sum_of_entries]
  have "cols (?h ! 0) \<noteq> length [1, 1 :: int] \<longrightarrow>
        marginalGain right_first sum_of_entries ?h 0 [1, 1]
          = (Inl (runtime_error (mismatch_message (cols (?h ! 0)) (length [1, 1 :: int]))), [], ?h)"
    by blast
  with d have "marginalGain right_first sum_of_entries ?h 0 [1, 1]
          = (Inl (runtime_error (mismatch_message (cols (?h ! 0)) (length [1, 1 :: int]))), [], ?h)"
    by blast
  then show ?thesis
    by (simp add: mismatch_message_def to_string.simps digit_char_def)
qed


section \<open>Batch evaluation: results\<close>

text \<open>
  C2. Let the schedule be one that the loop can follow with the worker count \<open>w\<close>, for any
  \<open>w\<close>, and let the primitive return a value on every member of \<open>multi\<close>. Then, in either
  build,
  \<^verbatim>\<open>evaluateBatch(multi)\<close> returns a vector as long as \<open>multi\<close> whose entry \<open>i\<close> is the
  value of the primitive on \<open>multi[i]\<close>, in whatever order the iterations took place.
\<close>

theorem evaluateBatch_order:
  assumes "omp_schedule w (length multi) schedule"
      and "\<forall>S\<in>set multi. f S = Inr (g S)"
  shows "\<exists>result. fst (evaluateBatch b f schedule multi) = Inr result
           \<and> length result = length multi
           \<and> (\<forall>i<length multi. f (multi ! i) = Inr (result ! i))"
proof -
  have "fst (evaluateBatch b f schedule multi) = Inr (map g multi)"
    by (simp add: evaluateBatch_value [OF assms])
  moreover have "\<forall>i<length multi. f (multi ! i) = Inr (map g multi ! i)"
    using assms(2) by simp
  ultimately show ?thesis by simp
qed

theorem evaluateBatch_order_witness:
  "fst (evaluateBatch with_openmp sum_of_entries [2, 0, 1]
          [\<lparr>cols = 2, rowlist = [[1, 0], [0, 1]]\<rparr>, \<lparr>cols = 1, rowlist = [[5]]\<rparr>, \<lparr>cols = 3, rowlist = []\<rparr>])
     = Inr [2, 5, 0]"
proof -
  let ?multi = "[\<lparr>cols = 2, rowlist = [[1, 0], [0, 1]]\<rparr>, \<lparr>cols = 1, rowlist = [[5]]\<rparr>,
                 \<lparr>cols = 3, rowlist = []\<rparr>] :: int matrix list"
  have s: "omp_schedule 2 (length ?multi) [2, 0, 1]"
    by (simp add: omp_schedule_def)
  have v: "\<forall>S\<in>set ?multi. sum_of_entries S = Inr (sum_list (concat (rowlist S)))"
    by (simp add: sum_of_entries_def)
  from evaluateBatch_order [OF s v, of with_openmp] obtain result
    where r: "fst (evaluateBatch with_openmp sum_of_entries [2, 0, 1] ?multi) = Inr result"
      and l: "length result = 3"
      and i: "\<forall>i<3. sum_of_entries (?multi ! i) = Inr (result ! i)"
    by auto
  from i [rule_format, of 0] i [rule_format, of 1] i [rule_format, of 2]
  have "result ! 0 = 2" "result ! 1 = 5" "result ! 2 = 0"
    by (simp_all add: sum_of_entries_def)
  with l have "result = [2, 5, 0]"
    by (intro nth_equalityI) (auto simp: less_Suc_eq numeral_3_eq_3 numeral_2_eq_2)
  with r show ?thesis by simp
qed



section \<open>Batch marginal gain, many sets and one element: results\<close>

text \<open>
  C5. Let \<open>e\<close> have as many coefficients as every member of \<open>multi\<close> has columns, let both
  schedules be ones the loop can follow, and let the primitive return a value on every
  member and on every member with \<open>e\<close> appended. Then, in either build,
  \<^verbatim>\<open>marginalGainBatch(multi, e)\<close>
  returns a vector as long as \<open>multi\<close> whose entry \<open>i\<close> is the value on \<open>multi[i]\<close> with
  \<open>e\<close> appended minus the value on \<open>multi[i]\<close>, which is what
  \<^verbatim>\<open>marginalGain(multi[i], e)\<close> returns.
\<close>

theorem marginalGainBatch_multi_gains:
  assumes "\<forall>S\<in>set multi. cols S = length e"
      and "omp_schedule w (length multi) schedule1"
      and "omp_schedule w (length multi) schedule2"
      and "\<forall>S\<in>set multi. f S = Inr (g S) \<and> f (appended S e) = Inr (g (appended S e))"
  shows "\<exists>result. fst (marginalGainBatch_multi b f schedule1 schedule2 multi e) = Inr result
           \<and> length result = length multi
           \<and> (\<forall>i<length multi.
                 result ! i = g (appended (multi ! i) e) - g (multi ! i)
                 \<and> fst (marginalGain_of ord f (multi ! i) e) = Inr (result ! i))"
proof -
  let ?augs = "map (\<lambda>S. appended S e) multi"
  have build: "S_multi_elem_loop e multi [] = Some ?augs"
    using assms(1) by (simp add: S_multi_elem_loop_appended)
  have ev1: "\<forall>S\<in>set multi. f S = Inr (g S)" using assms(4) by simp
  have batch1: "evaluateBatch b f schedule1 multi
      = (Inr (map g multi), map (\<lambda>i. evaluate_call (multi ! i)) schedule1)"
    by (rule evaluateBatch_value [OF assms(2) ev1])
  have sch2: "omp_schedule w (length ?augs) schedule2" using assms(3) by simp
  have ev2: "\<forall>M\<in>set ?augs. f M = Inr (g M)" using assms(4) by simp
  have batch2: "evaluateBatch b f schedule2 ?augs
      = (Inr (map g ?augs), map (\<lambda>i. evaluate_call (?augs ! i)) schedule2)"
    by (rule evaluateBatch_value [OF sch2 ev2])
  have loop: "marginalGains_loop 0 (map g ?augs) (map g multi) (replicate (length multi) 0)
      = map (\<lambda>S. g (appended S e) - g S) multi"
  proof -
    have "marginalGains_loop 0 (map g ?augs) (map g multi) (replicate (length multi) 0)
        = take 0 (replicate (length multi) (0::'a))
          @ map (\<lambda>j. map g ?augs ! j - map g multi ! j) [0..<length (map g multi)]"
      by (rule marginalGains_loop_eq) simp_all
    also have "\<dots> = map (\<lambda>S. g (appended S e) - g S) multi"
      by (intro nth_equalityI) simp_all
    finally show ?thesis .
  qed
  have res: "fst (marginalGainBatch_multi b f schedule1 schedule2 multi e)
      = Inr (map (\<lambda>S. g (appended S e) - g S) multi)"
    by (simp add: marginalGainBatch_multi_def build batch1 batch2 loop del: map_map)
  have "fst (marginalGain_of ord f (multi ! i) e) = Inr (g (appended (multi ! i) e) - g (multi ! i))"
    if "i < length multi" for i
  proof -
    have m: "multi ! i \<in> set multi" using that by simp
    then have "cols (multi ! i) = length e" using assms(1) by simp
    moreover have "f (multi ! i) = Inr (g (multi ! i))"
      "f (appended (multi ! i) e) = Inr (g (appended (multi ! i) e))"
      using m assms(4) by blast+
    ultimately show ?thesis
      by (simp add: marginalGain_of_match difference_of_calls_value)
  qed
  with res show ?thesis by simp
qed

theorem marginalGainBatch_multi_gains_witness:
  "fst (marginalGainBatch_multi with_openmp sum_of_entries [1, 0] [0, 1]
          [\<lparr>cols = 2, rowlist = [[1, 0], [0, 1]]\<rparr>, \<lparr>cols = 2, rowlist = []\<rparr>] [1, 1])
     = Inr [2, 2]
   \<and> fst (marginalGain_of right_first sum_of_entries \<lparr>cols = 2, rowlist = [[1, 0], [0, 1]]\<rparr> [1, 1]) = Inr 2
   \<and> fst (marginalGain_of right_first sum_of_entries \<lparr>cols = 2, rowlist = []\<rparr> [1, 1]) = Inr 2"
proof -
  let ?multi = "[\<lparr>cols = 2, rowlist = [[1, 0], [0, 1]]\<rparr>, \<lparr>cols = 2, rowlist = []\<rparr>] :: int matrix list"
  let ?e = "[1, 1] :: int list"
  let ?g = "\<lambda>S :: int matrix. sum_list (concat (rowlist S))"
  have d: "\<forall>S\<in>set ?multi. cols S = length ?e" by simp
  have s1: "omp_schedule 2 (length ?multi) [1, 0]" by (simp add: omp_schedule_def)
  have s2: "omp_schedule 2 (length ?multi) [0, 1]" by (simp add: omp_schedule_def)
  have v: "\<forall>S\<in>set ?multi. sum_of_entries S = Inr (?g S)
             \<and> sum_of_entries (appended S ?e) = Inr (?g (appended S ?e))"
    by (simp add: sum_of_entries_def)
  from marginalGainBatch_multi_gains [OF d s1 s2 v, of with_openmp right_first] obtain result
    where r: "fst (marginalGainBatch_multi with_openmp sum_of_entries [1, 0] [0, 1] ?multi ?e) = Inr result"
      and l: "length result = 2"
      and i: "\<forall>i<2. result ! i = ?g (appended (?multi ! i) ?e) - ?g (?multi ! i)
                \<and> fst (marginalGain_of right_first sum_of_entries (?multi ! i) ?e) = Inr (result ! i)"
    by auto
  from i [rule_format, of 0] i [rule_format, of 1]
  have "result ! 0 = 2" "result ! 1 = 2"
     "fst (marginalGain_of right_first sum_of_entries \<lparr>cols = 2, rowlist = [[1, 0], [0, 1]]\<rparr> ?e) = Inr (result ! 0)"
     "fst (marginalGain_of right_first sum_of_entries \<lparr>cols = 2, rowlist = []\<rparr> ?e) = Inr (result ! 1)"
    by (simp_all add: appended_def)
  moreover from this l have "result = [2, 2]"
    by (intro nth_equalityI) (auto simp: less_Suc_eq numeral_2_eq_2)
  ultimately show ?thesis using r by simp
qed


section \<open>Batch marginal gain, one set and many elements: results\<close>

text \<open>
  For fewer than \<open>2\<^sup>3\<^sup>2\<close> candidates the counters of both loops reach the size. Let
  every element of \<open>elems\<close> have as many coefficients as \<open>S\<close> has columns, let the schedule
  be one the loop can follow, and let the primitive return a value on \<open>S\<close> and on \<open>S\<close>
  with each element appended. Then \<^verbatim>\<open>marginalGainBatch(S, elems)\<close> returns a vector as long
  as \<open>elems\<close> whose entry \<open>j\<close> is the value on \<open>S\<close> with \<open>elems[j]\<close> appended minus the
  value on \<open>S\<close>, which is what \<^verbatim>\<open>marginalGain(S, elems[j])\<close> returns.
\<close>

lemma marginalGainBatch_elems_gains:
  assumes "\<forall>e\<in>set elems. length e = cols S"
      and "omp_schedule w (length elems) schedule"
      and "f S = Inr (g S)"
      and "\<forall>e\<in>set elems. f (appended S e) = Inr (g (appended S e))"
      and "length elems < 2 ^ 32"
  shows "\<exists>result calls. marginalGainBatch_elems b f schedule S elems = Some (Inr result, calls)
           \<and> length result = length elems
           \<and> (\<forall>j<length elems.
                 result ! j = g (appended S (elems ! j)) - g S
                 \<and> fst (marginalGain_of ord f S (elems ! j)) = Inr (result ! j))"
proof -
  let ?augs = "map (appended S) elems"
  have build: "S_elems_loop 0 elems S (replicate (length elems) S) = Some (Some ?augs)"
    using assms(1,5) by (simp add: S_elems_loop_appended)
  have sch: "omp_schedule w (length ?augs) schedule" using assms(2) by simp
  have ev: "\<forall>M\<in>set ?augs. f M = Inr (g M)" using assms(4) by simp
  have batch: "evaluateBatch b f schedule ?augs
      = (Inr (map g ?augs), map (\<lambda>i. evaluate_call (?augs ! i)) schedule)"
    by (rule evaluateBatch_value [OF sch ev])
  have loop: "gains_loop 0 (length elems) (map g ?augs) (g S) (replicate (length elems) 0)
      = Some (map (\<lambda>e. g (appended S e) - g S) elems)"
  proof -
    have "gains_loop 0 (length elems) (map g ?augs) (g S) (replicate (length elems) 0)
        = Some (take (unat (0 :: 32 word)) (replicate (length elems) (0::'a))
            @ map (\<lambda>j. map g ?augs ! j - g S) [unat (0 :: 32 word)..<length elems])"
      using assms(5) by (intro gains_loop_eq) simp_all
    also have "take (unat (0 :: 32 word)) (replicate (length elems) (0::'a))
            @ map (\<lambda>j. map g ?augs ! j - g S) [unat (0 :: 32 word)..<length elems]
        = map (\<lambda>e. g (appended S e) - g S) elems"
      by (intro nth_equalityI) simp_all
    finally show ?thesis .
  qed
  have res: "marginalGainBatch_elems b f schedule S elems
      = Some (Inr (map (\<lambda>e. g (appended S e) - g S) elems),
              [evaluate_call S, evaluateBatch_call ?augs (map (\<lambda>i. evaluate_call (?augs ! i)) schedule)])"
    by (simp add: marginalGainBatch_elems_def build assms(3) batch loop del: map_map)
  have "fst (marginalGain_of ord f S (elems ! j)) = Inr (g (appended S (elems ! j)) - g S)"
    if "j < length elems" for j
  proof -
    have e: "elems ! j \<in> set elems" using that by simp
    then have "cols S = length (elems ! j)" using assms(1) by simp
    moreover have "f (appended S (elems ! j)) = Inr (g (appended S (elems ! j)))"
      using e assms(4) by blast
    ultimately show ?thesis
      by (simp add: marginalGain_of_match difference_of_calls_value assms(3))
  qed
  with res show ?thesis by simp
qed

lemma marginalGainBatch_elems_gains_example:
  "fst (the (marginalGainBatch_elems with_openmp sum_of_entries [1, 0]
               \<lparr>cols = 2, rowlist = [[1, 0], [0, 1]]\<rparr> [[1, 1], [3, 4]]))
     = Inr [2, 7]
   \<and> fst (marginalGain_of left_first sum_of_entries \<lparr>cols = 2, rowlist = [[1, 0], [0, 1]]\<rparr> [1, 1]) = Inr 2
   \<and> fst (marginalGain_of left_first sum_of_entries \<lparr>cols = 2, rowlist = [[1, 0], [0, 1]]\<rparr> [3, 4]) = Inr 7"
proof -
  let ?S = "\<lparr>cols = 2, rowlist = [[1, 0], [0, 1]]\<rparr> :: int matrix"
  let ?elems = "[[1, 1], [3, 4]] :: int list list"
  let ?g = "\<lambda>S :: int matrix. sum_list (concat (rowlist S))"
  have d: "\<forall>e\<in>set ?elems. length e = cols ?S" by simp
  have s: "omp_schedule 2 (length ?elems) [1, 0]" by (simp add: omp_schedule_def)
  have v: "sum_of_entries ?S = Inr (?g ?S)" by (simp add: sum_of_entries_def)
  have vs: "\<forall>e\<in>set ?elems. sum_of_entries (appended ?S e) = Inr (?g (appended ?S e))"
    by (simp add: sum_of_entries_def)
  have l: "length ?elems < 2 ^ 32" by simp
  from marginalGainBatch_elems_gains [OF d s v vs l, of with_openmp left_first] obtain result calls
    where r: "marginalGainBatch_elems with_openmp sum_of_entries [1, 0] ?S ?elems = Some (Inr result, calls)"
      and l: "length result = 2"
      and i: "\<forall>j<2. result ! j = ?g (appended ?S (?elems ! j)) - ?g ?S
                \<and> fst (marginalGain_of left_first sum_of_entries ?S (?elems ! j)) = Inr (result ! j)"
    by auto
  from i [rule_format, of 0] i [rule_format, of 1]
  have "result ! 0 = 2" "result ! 1 = 7"
     "fst (marginalGain_of left_first sum_of_entries ?S [1, 1]) = Inr (result ! 0)"
     "fst (marginalGain_of left_first sum_of_entries ?S [3, 4]) = Inr (result ! 1)"
    by (simp_all add: appended_def)
  moreover from this l have "result = [2, 7]"
    by (intro nth_equalityI) (auto simp: less_Suc_eq numeral_2_eq_2)
  ultimately show ?thesis using r by simp
qed

text \<open>
  From \<open>2\<^sup>3\<^sup>2\<close> candidates of the right width on, the counter of the first loop wraps
  around to 0 before it reaches the size; the loop starts over, and the function never
  returns.
\<close>

lemma marginalGainBatch_elems_diverges:
  assumes "2 ^ 32 \<le> length elems" and "\<forall>e\<in>set elems. length e = cols S"
  shows "marginalGainBatch_elems b f schedule S elems = None"
proof -
  have "S_elems_loop 0 elems S (replicate (length elems) S) = None"
    using assms by (intro S_elems_loop_never_returns) simp_all
  then show ?thesis by (simp add: marginalGainBatch_elems_def)
qed

lemma replicate_candidates:
  "length (replicate n e) = n" "\<forall>x\<in>set (replicate n e). length x = length e"
  by simp_all

text \<open>
  C3. For the set \<open>S\<close> of the rows \<open>[1, 0]\<close> and \<open>[0, 1]\<close> and \<open>2\<^sup>3\<^sup>2\<close> candidates
  \<open>[1, 1]\<close>, \<^verbatim>\<open>marginalGainBatch(S, elems)\<close> does not return, in either build, whatever the
  primitive and the schedule are: there is no result sequence.
\<close>

theorem marginalGainBatch_elems_never_returns:
  "marginalGainBatch_elems b f schedule \<lparr>cols = 2, rowlist = [[1, 0], [0, 1 :: int]]\<rparr>
     (replicate (2 ^ 32) [1, 1]) = None"
proof (rule marginalGainBatch_elems_diverges)
  show "2 ^ 32 \<le> length (replicate (2 ^ 32) [1, 1 :: int])"
    by (simp only: replicate_candidates(1) order_refl)
  have "\<forall>x\<in>set (replicate (2 ^ 32) [1, 1 :: int]). length x = length [1, 1 :: int]"
    by (rule replicate_candidates(2))
  then show "\<forall>e\<in>set (replicate (2 ^ 32) [1, 1 :: int]).
      length e = cols \<lparr>cols = 2, rowlist = [[1, 0], [0, 1 :: int]]\<rparr>"
    by simp
qed

lemma evaluateBatch_loop_calls:
  "\<exists>k\<le>length sch. snd (evaluateBatch_loop b f Ss sch us) = map (\<lambda>i. evaluate_call (Ss ! i)) (take k sch)"
proof (induction sch arbitrary: us)
  case Nil
  then show ?case by simp
next
  case (Cons i sch)
  show ?case
  proof (cases "f (Ss ! i)")
    case (Inl x)
    then have "snd (evaluateBatch_loop b f Ss (i # sch) us)
        = map (\<lambda>i. evaluate_call (Ss ! i)) (take 1 (i # sch))" by simp
    then show ?thesis by (intro exI [of _ 1]) simp
  next
    case (Inr u)
    from Cons.IH [of "us[i := u]"] obtain k where k: "k \<le> length sch"
      "snd (evaluateBatch_loop b f Ss sch (us[i := u])) = map (\<lambda>i. evaluate_call (Ss ! i)) (take k sch)"
      by blast
    with Inr have "snd (evaluateBatch_loop b f Ss (i # sch) us)
        = map (\<lambda>i. evaluate_call (Ss ! i)) (take (Suc k) (i # sch))"
      by (cases "evaluateBatch_loop b f Ss sch (us[i := u])") simp
    with k(1) show ?thesis by (intro exI [of _ "Suc k"]) simp
  qed
qed

lemma evaluateBatch_no_nested_batch:
  "concat (map batch_calls (snd (evaluateBatch b f sch Ss))) = []"
proof -
  obtain k where "snd (evaluateBatch b f sch Ss) = map (\<lambda>i. evaluate_call (Ss ! i)) (take k sch)"
    using evaluateBatch_loop_calls [of sch b f Ss] by (auto simp: evaluateBatch_def)
  then show ?thesis by simp
qed

lemma appended_neq: "appended S e \<noteq> S"
proof
  assume "appended S e = S"
  then have "rowlist (appended S e) = rowlist S" by simp
  then show False by (simp add: appended_def)
qed

lemma evaluateBatch_appended_evaluations:
  assumes "omp_schedule w (length elems) sch"
  shows "S \<notin> set (concat (map evaluations (snd (evaluateBatch b f sch (map (appended S) elems)))))"
proof -
  obtain k where k: "snd (evaluateBatch b f sch (map (appended S) elems))
      = map (\<lambda>i. evaluate_call (map (appended S) elems ! i)) (take k sch)"
    using evaluateBatch_loop_calls [of sch b f "map (appended S) elems"]
    by (auto simp: evaluateBatch_def)
  have "i < length elems" if "i \<in> set (take k sch)" for i
    using that omp_schedule_set [OF assms] by (auto dest: in_set_takeD)
  then show ?thesis
    by (auto simp: k appended_neq [THEN not_sym])
qed

text \<open>
  For fewer than \<open>2\<^sup>3\<^sup>2\<close> candidates of the right width and a schedule the loop can
  follow, \<^verbatim>\<open>marginalGainBatch(S, elems)\<close> returns, and among all calls of the primitive
  that it causes, directly or through the batch evaluation, exactly one has the argument
  \<open>S\<close>, whether or not any call throws. When the primitive returns a value \<open>v\<close> on \<open>S\<close>,
  the calls the function makes itself are that one call and one call of the batch
  evaluation on all the augmented sets together, the only call of the batch evaluation
  there is. When the primitive also returns values on the augmented sets, the calls inside
  the batch are one per augmented set and every entry of the result is a value on an
  augmented set minus the same \<open>v\<close>.
\<close>

lemma marginalGainBatch_elems_calls:
  assumes "\<forall>e\<in>set elems. length e = cols S"
      and "omp_schedule w (length elems) schedule"
      and "length elems < 2 ^ 32"
  shows "\<exists>r calls. marginalGainBatch_elems b f schedule S elems = Some (r, calls)
     \<and> count_list (concat (map evaluations calls)) S = 1
     \<and> (f S = Inr v \<longrightarrow>
          (\<exists>inner. calls = [evaluate_call S, evaluateBatch_call (map (appended S) elems) inner])
          \<and> concat (map batch_calls calls) = [map (appended S) elems])
     \<and> (f S = Inr v \<longrightarrow> (\<forall>e\<in>set elems. f (appended S e) = Inr (g (appended S e))) \<longrightarrow>
          calls = [evaluate_call S,
                   evaluateBatch_call (map (appended S) elems)
                     (map (\<lambda>i. evaluate_call (appended S (elems ! i))) schedule)]
          \<and> r = Inr (map (\<lambda>e. g (appended S e) - v) elems))"
proof -
  let ?augs = "map (appended S) elems"
  have build: "S_elems_loop 0 elems S (replicate (length elems) S) = Some (Some ?augs)"
    using assms(1,3) by (simp add: S_elems_loop_appended)
  obtain r inner where bt: "evaluateBatch b f schedule ?augs = (r, inner)"
    by (cases "evaluateBatch b f schedule ?augs")
  have "S \<notin> set (concat (map evaluations (snd (evaluateBatch b f schedule ?augs))))"
    by (rule evaluateBatch_appended_evaluations [OF assms(2)])
  then have "count_list (concat (map evaluations (snd (evaluateBatch b f schedule ?augs)))) S = 0"
    by (simp only: count_list_0_iff not_False_eq_True)
  with bt have zero: "count_list (concat (map evaluations inner)) S = 0" by simp
  have flat: "concat (map batch_calls inner) = []"
    using evaluateBatch_no_nested_batch [of b f schedule ?augs] bt by simp
  have gl: "gains_loop 0 (length elems) vals u (replicate (length elems) 0)
      = Some (map (\<lambda>j. vals ! j - u) [0..<length elems])" for vals :: "'a list" and u
  proof -
    have "gains_loop 0 (length elems) vals u (replicate (length elems) 0)
        = Some (take (unat (0 :: 32 word)) (replicate (length elems) (0::'a))
            @ map (\<lambda>j. vals ! j - u) [unat (0 :: 32 word)..<length elems])"
      using assms(3) by (intro gains_loop_eq) simp_all
    then show ?thesis by simp
  qed
  show ?thesis
  proof (cases "f S")
    case (Inl x)
    then show ?thesis by (simp add: marginalGainBatch_elems_def build)
  next
    case (Inr u)
    show ?thesis
    proof (cases r)
      case (Inl e)
      with Inr bt zero flat have "marginalGainBatch_elems b f schedule S elems
          = Some (Inl e, [evaluate_call S, evaluateBatch_call ?augs inner])"
        by (simp add: marginalGainBatch_elems_def build)
      moreover have "\<not> (\<forall>e\<in>set elems. f (appended S e) = Inr (g (appended S e)))"
      proof
        assume fa: "\<forall>e\<in>set elems. f (appended S e) = Inr (g (appended S e))"
        have sch: "omp_schedule w (length ?augs) schedule" using assms(2) by simp
        have ev: "\<forall>M\<in>set ?augs. f M = Inr (g M)" using fa by simp
        from evaluateBatch_value [OF sch ev, of b] bt Inl show False by simp
      qed
      ultimately show ?thesis using Inr zero flat by simp
    next
      case vals: (Inr vals)
      with Inr bt have res: "marginalGainBatch_elems b f schedule S elems
          = Some (Inr (map (\<lambda>j. vals ! j - u) [0..<length elems]),
                  [evaluate_call S, evaluateBatch_call ?augs inner])"
        by (simp add: marginalGainBatch_elems_def build gl)
      have full: "inner = map (\<lambda>i. evaluate_call (appended S (elems ! i))) schedule
          \<and> map (\<lambda>j. vals ! j - u) [0..<length elems] = map (\<lambda>e. g (appended S e) - u) elems"
        if fa: "\<forall>e\<in>set elems. f (appended S e) = Inr (g (appended S e))"
      proof -
        have sch: "omp_schedule w (length ?augs) schedule" using assms(2) by simp
        have ev: "\<forall>M\<in>set ?augs. f M = Inr (g M)" using fa by simp
        from evaluateBatch_value [OF sch ev, of b] bt vals
        have v: "vals = map g ?augs" and i: "inner = map (\<lambda>i. evaluate_call (?augs ! i)) schedule"
          by simp_all
        have "map (\<lambda>i. evaluate_call (?augs ! i)) schedule
            = map (\<lambda>i. evaluate_call (appended S (elems ! i))) schedule"
          using omp_schedule_set [OF assms(2)] by simp
        moreover have "map (\<lambda>j. vals ! j - u) [0..<length elems] = map (\<lambda>e. g (appended S e) - u) elems"
          unfolding v by (intro nth_equalityI) simp_all
        ultimately show ?thesis using i by simp
      qed
      from res Inr zero flat full show ?thesis by auto
    qed
  qed
qed

lemma marginalGainBatch_elems_calls_example:
  "marginalGainBatch_elems with_openmp sum_of_entries [1, 0]
      \<lparr>cols = 2, rowlist = [[1, 0], [0, 1]]\<rparr> [[1, 1], [3, 4]]
     = Some (Inr [2, 7],
        [evaluate_call \<lparr>cols = 2, rowlist = [[1, 0], [0, 1]]\<rparr>,
         evaluateBatch_call
           [\<lparr>cols = 2, rowlist = [[1, 0], [0, 1], [1, 1]]\<rparr>, \<lparr>cols = 2, rowlist = [[1, 0], [0, 1], [3, 4]]\<rparr>]
           [evaluate_call \<lparr>cols = 2, rowlist = [[1, 0], [0, 1], [3, 4]]\<rparr>,
            evaluate_call \<lparr>cols = 2, rowlist = [[1, 0], [0, 1], [1, 1]]\<rparr>]])"
proof -
  let ?S = "\<lparr>cols = 2, rowlist = [[1, 0], [0, 1]]\<rparr> :: int matrix"
  let ?elems = "[[1, 1], [3, 4]] :: int list list"
  let ?g = "\<lambda>S :: int matrix. sum_list (concat (rowlist S))"
  have d: "\<forall>e\<in>set ?elems. length e = cols ?S" by simp
  have s: "omp_schedule 2 (length ?elems) [1, 0]" by (simp add: omp_schedule_def)
  have l: "length ?elems < 2 ^ 32" by simp
  have v: "sum_of_entries ?S = Inr 2" by (simp add: sum_of_entries_def)
  have vs: "\<forall>e\<in>set ?elems. sum_of_entries (appended ?S e) = Inr (?g (appended ?S e))"
    by (simp add: sum_of_entries_def)
  from marginalGainBatch_elems_calls [OF d s l, where f = sum_of_entries and v = 2 and g = ?g
      and b = with_openmp] v vs
  show ?thesis by (auto simp: appended_def)
qed

text \<open>
  C6. For the set \<open>S\<close> of the rows \<open>[1, 0]\<close> and \<open>[0, 1]\<close> and \<open>2\<^sup>3\<^sup>2\<close> candidates
  \<open>[1, 1]\<close>, the first loop of \<^verbatim>\<open>marginalGainBatch(S, elems)\<close>, lines 164 to 168, never
  ends. It stands before the evaluation of \<open>S\<close> in line 171 and before the batch of line
  174, so the primitive is not called on \<open>S\<close> at all.
\<close>

theorem S_elems_loop_never_ends:
  "S_elems_loop 0 (replicate (2 ^ 32) [1, 1 :: int]) \<lparr>cols = 2, rowlist = [[1, 0], [0, 1]]\<rparr>
     (replicate (length (replicate (2 ^ 32) [1, 1 :: int])) \<lparr>cols = 2, rowlist = [[1, 0], [0, 1]]\<rparr>) = None"
proof (rule S_elems_loop_never_returns)
  show "2 ^ 32 \<le> length (replicate (2 ^ 32) [1, 1 :: int])"
    by (simp only: replicate_candidates(1) order_refl)
  have "\<forall>x\<in>set (replicate (2 ^ 32) [1, 1 :: int]). length x = length [1, 1 :: int]"
    by (rule replicate_candidates(2))
  then show "\<forall>e\<in>set (replicate (2 ^ 32) [1, 1 :: int]).
      length e = cols \<lparr>cols = 2, rowlist = [[1, 0], [0, 1 :: int]]\<rparr>"
    by simp
  show "length (replicate (length (replicate (2 ^ 32) [1, 1 :: int])) \<lparr>cols = 2, rowlist = [[1, 0], [0, 1 :: int]]\<rparr>)
      = length (replicate (2 ^ 32) [1, 1 :: int])"
    by (simp only: length_replicate)
  show "\<forall>M\<in>set (replicate (length (replicate (2 ^ 32) [1, 1 :: int])) \<lparr>cols = 2, rowlist = [[1, 0], [0, 1 :: int]]\<rparr>).
      cols M = cols \<lparr>cols = 2, rowlist = [[1, 0], [0, 1 :: int]]\<rparr>"
    by (simp only: set_replicate_conv_if) simp
qed


section \<open>Failures of the primitive\<close>























section \<open>The non-const overloads\<close>

text \<open>
  C10. Each of the four non-const overloads returns what the const overload returns on
  the same arguments.
\<close>

theorem nonconst_delegates:
  "marginalGain_nonconst ord f h S e = marginalGain ord f h S e
   \<and> evaluateBatch_nonconst b f schedule multi = evaluateBatch b f schedule multi
   \<and> marginalGainBatch_multi_nonconst b f schedule1 schedule2 multi e
       = marginalGainBatch_multi b f schedule1 schedule2 multi e
   \<and> marginalGainBatch_elems_nonconst b f schedule S' elems = marginalGainBatch_elems b f schedule S' elems"
  by (simp add: marginalGain_nonconst_def evaluateBatch_nonconst_def
      marginalGainBatch_multi_nonconst_def marginalGainBatch_elems_nonconst_def)

end
